theory Spec2Isabelle
  imports Complex_Main "HOL-Library.Multiset"
begin

section \<open>Common Python notions\<close>

text \<open>
  Exceptions raised by the modelled methods are values of \<open>py_error\<close>; a method that
  can raise returns a sum with \<open>Inl\<close> for the exception.  Wall-clock time
  (\<open>time.time()\<close>) is passed to every method that reads it, as a real number.
\<close>

datatype py_error = IndexError | ValueError | RuntimeError | CircuitOpenError

text \<open>Python list indexing \<open>xs[i]\<close>: a negative index counts from the end, an index
  out of range raises \<open>IndexError\<close>.\<close>

definition py_index :: "'a list \<Rightarrow> int \<Rightarrow> py_error + 'a" where
  "py_index xs i =
     (if 0 \<le> i \<and> i < int (length xs) then Inr (xs ! nat i)
      else if i < 0 \<and> - int (length xs) \<le> i then Inr (xs ! nat (int (length xs) + i))
      else Inl IndexError)"

section \<open>Circuit breaker (reliability/circuit\_breaker.py)\<close>

datatype CircuitState = CLOSED | OPEN | HALF_OPEN

record CircuitBreakerConfig =
  failure_threshold :: int
  success_threshold :: int
  timeout :: real
  window_size :: int

record CircuitBreaker =
  cb_config :: CircuitBreakerConfig
  cb_state :: CircuitState
  failure_count :: int
  success_count :: int
  last_failure_time :: real
  call_history :: "bool list"
  total_calls :: int
  successful_calls :: int
  failed_calls :: int
  rejected_calls :: int
  state_changes :: int

definition CircuitBreaker_init :: "CircuitBreakerConfig \<Rightarrow> CircuitBreaker" where
  "CircuitBreaker_init cfg =
     \<lparr>cb_config = cfg, cb_state = CLOSED, failure_count = 0, success_count = 0,
      last_failure_time = 0, call_history = [], total_calls = 0, successful_calls = 0,
      failed_calls = 0, rejected_calls = 0, state_changes = 0\<rparr>"

definition change_state :: "real \<Rightarrow> CircuitState \<Rightarrow> CircuitBreaker \<Rightarrow> CircuitBreaker" where
  "change_state now new_state cb =
     (if cb_state cb \<noteq> new_state then
        (let cb1 = cb\<lparr>cb_state := new_state, state_changes := state_changes cb + 1\<rparr>
         in if new_state = OPEN then cb1\<lparr>last_failure_time := now\<rparr>
            else if new_state = CLOSED then
              cb1\<lparr>failure_count := 0, success_count := 0, call_history := []\<rparr>
            else cb1)
      else cb)"

definition should_attempt_reset :: "real \<Rightarrow> CircuitBreaker \<Rightarrow> bool" where
  "should_attempt_reset now cb =
     (if cb_state cb \<noteq> OPEN then False
      else now - last_failure_time cb \<ge> timeout (cb_config cb))"

definition trim_history :: "CircuitBreaker \<Rightarrow> CircuitBreaker" where
  "trim_history cb =
     (if int (length (call_history cb)) > window_size (cb_config cb)
      then cb\<lparr>call_history := tl (call_history cb)\<rparr> else cb)"

definition record_success :: "real \<Rightarrow> CircuitBreaker \<Rightarrow> CircuitBreaker" where
  "record_success now cb =
     (let cb1 = trim_history (cb\<lparr>successful_calls := successful_calls cb + 1,
                                call_history := call_history cb @ [True]\<rparr>)
      in if cb_state cb1 = HALF_OPEN then
           (let cb2 = cb1\<lparr>success_count := success_count cb1 + 1\<rparr>
            in if success_count cb2 \<ge> success_threshold (cb_config cb2)
               then change_state now CLOSED cb2 else cb2)
         else if cb_state cb1 = CLOSED then cb1\<lparr>failure_count := 0\<rparr>
         else cb1)"

definition record_failure :: "real \<Rightarrow> CircuitBreaker \<Rightarrow> CircuitBreaker" where
  "record_failure now cb =
     (let cb1 = trim_history (cb\<lparr>failed_calls := failed_calls cb + 1,
                                call_history := call_history cb @ [False]\<rparr>);
          cb2 = cb1\<lparr>failure_count := failure_count cb1 + 1\<rparr>
      in if cb_state cb2 = HALF_OPEN then change_state now OPEN cb2
         else if failure_count cb2 \<ge> failure_threshold (cb_config cb2)
           then change_state now OPEN cb2
         else cb2)"

text \<open>\<open>call(func)\<close>: the wrapped operation is represented by its outcome, \<open>Inr r\<close> for a
  returned value and \<open>Inl e\<close> for a raised exception; \<open>now\<close> is the clock at the
  availability check and \<open>later\<close> the clock when the outcome is recorded.\<close>

definition call :: "real \<Rightarrow> real \<Rightarrow> (py_error + 'r) \<Rightarrow> CircuitBreaker
    \<Rightarrow> (py_error + 'r) \<times> CircuitBreaker" where
  "call now later outcome cb =
     (let cb1 = cb\<lparr>total_calls := total_calls cb + 1\<rparr>;
          cb2 = (if should_attempt_reset now cb1 then change_state now HALF_OPEN cb1 else cb1)
      in if cb_state cb2 = OPEN
         then (Inl CircuitOpenError, cb2\<lparr>rejected_calls := rejected_calls cb2 + 1\<rparr>)
         else (case outcome of
                 Inr r \<Rightarrow> (Inr r, record_success later cb2)
               | Inl e \<Rightarrow> (Inl e, record_failure later cb2)))"

definition get_state :: "CircuitBreaker \<Rightarrow> CircuitState" where
  "get_state cb = cb_state cb"

text \<open>\<open>is_available()\<close> assigns no field of the breaker; the returned breaker is the
  one it was called on.\<close>

definition is_available :: "real \<Rightarrow> CircuitBreaker \<Rightarrow> bool \<times> CircuitBreaker" where
  "is_available now cb =
     (if should_attempt_reset now cb then (True, cb)
      else (cb_state cb \<noteq> OPEN, cb))"

definition reset :: "real \<Rightarrow> CircuitBreaker \<Rightarrow> CircuitBreaker" where
  "reset now cb = change_state now CLOSED cb"

section \<open>Round robin (plugins/round\_robin.py)\<close>

record RoundRobinAlgorithm =
  rr_name :: string
  rr_current_index :: int

definition RoundRobinAlgorithm_init :: RoundRobinAlgorithm where
  "RoundRobinAlgorithm_init = \<lparr>rr_name = ''round_robin'', rr_current_index = 0\<rparr>"

text \<open>\<open>select_server\<close> reads \<open>servers[self.current_index]\<close> before it reduces the index
  modulo the length; when that read raises, the index is left as it was.\<close>

definition select_server :: "RoundRobinAlgorithm \<Rightarrow> 'a list
    \<Rightarrow> (py_error + 'a option) \<times> RoundRobinAlgorithm" where
  "select_server rr servers =
     (if servers = [] then (Inr None, rr)
      else (case py_index servers (rr_current_index rr) of
              Inl e \<Rightarrow> (Inl e, rr)
            | Inr selected_server \<Rightarrow>
                (Inr (Some selected_server),
                 rr\<lparr>rr_current_index := (rr_current_index rr + 1) mod int (length servers)\<rparr>)))"

definition rr_reset :: "RoundRobinAlgorithm \<Rightarrow> RoundRobinAlgorithm" where
  "rr_reset rr = rr\<lparr>rr_current_index := 0\<rparr>"

section \<open>Weighted round robin (plugins/weighted\_round\_robin.py)\<close>

record WeightedRoundRobinPlugin =
  current_index :: int
  current_weight :: int
  max_weight :: int
  gcd_weight :: int
  backend_weights :: "(string \<times> int) list"

definition WeightedRoundRobinPlugin_init :: WeightedRoundRobinPlugin where
  "WeightedRoundRobinPlugin_init =
     \<lparr>current_index = 0, current_weight = 0, max_weight = 0, gcd_weight = 0,
      backend_weights = []\<rparr>"

text \<open>The dictionary \<open>backend_weights\<close> is an association list in insertion order;
  \<open>dict_set\<close> is the assignment \<open>d[k] = v\<close>.\<close>

fun dict_set :: "('k \<times> 'v) list \<Rightarrow> 'k \<Rightarrow> 'v \<Rightarrow> ('k \<times> 'v) list" where
  "dict_set [] k v = [(k, v)]"
| "dict_set ((k', v') # d) k v = (if k' = k then (k', v) # d else (k', v') # dict_set d k v)"

text \<open>\<open>_gcd_list\<close> and \<open>max\<close> are only applied to the values of a non-empty dictionary.\<close>

fun gcd_list_wrr :: "int list \<Rightarrow> int" where
  "gcd_list_wrr (n # numbers) = foldl gcd n numbers"

fun max_list :: "int list \<Rightarrow> int" where
  "max_list (n # numbers) = foldl max n numbers"

definition recalculate_weights :: "WeightedRoundRobinPlugin \<Rightarrow> WeightedRoundRobinPlugin" where
  "recalculate_weights p =
     (if backend_weights p = [] then p\<lparr>max_weight := 0, gcd_weight := 0\<rparr>
      else (let weights = map snd (backend_weights p)
            in p\<lparr>max_weight := max_list weights, gcd_weight := gcd_list_wrr weights\<rparr>))"

definition set_backend_weight :: "string \<Rightarrow> int \<Rightarrow> WeightedRoundRobinPlugin
    \<Rightarrow> py_error + WeightedRoundRobinPlugin" where
  "set_backend_weight backend_id weight p =
     (if weight \<le> 0 then Inl ValueError
      else Inr (recalculate_weights
                  (p\<lparr>backend_weights := dict_set (backend_weights p) backend_id weight\<rparr>)))"

text \<open>The first loop of \<open>select_backend\<close>: a backend without a weight gets weight 1.\<close>

fun ensure_weights :: "string list \<Rightarrow> WeightedRoundRobinPlugin
    \<Rightarrow> py_error + WeightedRoundRobinPlugin" where
  "ensure_weights [] p = Inr p"
| "ensure_weights (backend # rest) p =
     (if map_of (backend_weights p) backend = None
      then (case set_backend_weight backend 1 p of
              Inl e \<Rightarrow> Inl e
            | Inr p1 \<Rightarrow> ensure_weights rest p1)
      else ensure_weights rest p)"

text \<open>\<open>self.backend_weights.get(backend, 1)\<close>.\<close>

definition weight_of :: "WeightedRoundRobinPlugin \<Rightarrow> string \<Rightarrow> int" where
  "weight_of p backend = (case map_of (backend_weights p) backend of None \<Rightarrow> 1 | Some w \<Rightarrow> w)"

text \<open>The state update at the head of one iteration of the \<open>while True\<close> loop.\<close>

definition wrr_tick :: "string list \<Rightarrow> WeightedRoundRobinPlugin \<Rightarrow> WeightedRoundRobinPlugin" where
  "wrr_tick backends p =
     (let p1 = p\<lparr>current_index := (current_index p + 1) mod int (length backends)\<rparr>
      in if current_index p1 = 0
         then (let p2 = p1\<lparr>current_weight := current_weight p1 - gcd_weight p1\<rparr>
               in if current_weight p2 \<le> 0 then p2\<lparr>current_weight := max_weight p2\<rparr> else p2)
         else p1)"

partial_function (option) select_loop :: "string list \<Rightarrow> WeightedRoundRobinPlugin
    \<Rightarrow> (string option \<times> WeightedRoundRobinPlugin) option" where
  "select_loop backends p =
     (let p1 = wrr_tick backends p
      in if current_index p1 = 0 \<and> current_weight p1 = 0 then Some (None, p1)
         else (let backend = backends ! nat (current_index p1)
               in if weight_of p1 backend \<ge> current_weight p1 then Some (Some backend, p1)
                  else select_loop backends p1))"

definition wrr_select_backend :: "string list \<Rightarrow> WeightedRoundRobinPlugin
    \<Rightarrow> ((py_error + string option) \<times> WeightedRoundRobinPlugin) option" where
  "wrr_select_backend backends p =
     (if backends = [] then Some (Inr None, p)
      else (case ensure_weights backends p of
              Inl e \<Rightarrow> Some (Inl e, p)
            | Inr p1 \<Rightarrow>
                (case select_loop backends p1 of
                   None \<Rightarrow> None
                 | Some (r, p2) \<Rightarrow> Some (Inr r, p2))))"

text \<open>Well-formed plugin states: every registered weight is positive and the derived
  fields are those \<open>_recalculate_weights\<close> computes.\<close>

definition wrr_consistent :: "WeightedRoundRobinPlugin \<Rightarrow> bool" where
  "wrr_consistent p =
     (distinct (map fst (backend_weights p)) \<and>
      list_all (\<lambda>e. 0 < snd e) (backend_weights p) \<and>
      max_weight p = (if backend_weights p = [] then 0 else max_list (map snd (backend_weights p))) \<and>
      gcd_weight p = (if backend_weights p = [] then 0 else gcd_list_wrr (map snd (backend_weights p))))"


definition wrr_ready :: "string list \<Rightarrow> WeightedRoundRobinPlugin \<Rightarrow> bool" where
  "wrr_ready bs p =
     (bs \<noteq> [] \<and> 1 \<le> gcd_weight p \<and> gcd_weight p dvd max_weight p \<and>
      list_all (\<lambda>b. map_of (backend_weights p) b \<noteq> None \<and> gcd_weight p dvd weight_of p b \<and>
                    0 < weight_of p b \<and> weight_of p b \<le> max_weight p) bs)"

definition wrr_pass :: "string list \<Rightarrow> WeightedRoundRobinPlugin \<Rightarrow> bool" where
  "wrr_pass bs p = (current_weight p \<le> weight_of p (bs ! nat (current_index p)))"

definition wrr_chosen :: "string list \<Rightarrow> WeightedRoundRobinPlugin \<Rightarrow> string" where
  "wrr_chosen bs p = bs ! nat (current_index p)"


definition wrr_order :: "string list \<Rightarrow> (WeightedRoundRobinPlugin \<times> WeightedRoundRobinPlugin) set" where
  "wrr_order bs =
     measures [\<lambda>p. if current_weight p \<le> gcd_weight p then nat (max_weight p) + 1
                   else nat (current_weight p),
               \<lambda>p. length bs - 1 - nat (current_index p mod int (length bs))]"




section \<open>Rate limiters (reliability/rate\_limiter.py)\<close>

text \<open>Token counts, rates and timestamps are Python floats; they are modelled as real
  numbers, so the arithmetic below is exact.\<close>

record RateLimitConfig =
  requests_per_second :: real
  burst_size :: int

record TokenBucketRateLimiter =
  tb_config :: RateLimitConfig
  capacity :: int
  tokens :: real
  rate :: real
  last_update :: real
  tb_total_requests :: int
  tb_accepted_requests :: int
  tb_rejected_requests :: int

definition TokenBucketRateLimiter_init :: "real \<Rightarrow> RateLimitConfig \<Rightarrow> TokenBucketRateLimiter" where
  "TokenBucketRateLimiter_init now cfg =
     \<lparr>tb_config = cfg, capacity = burst_size cfg, tokens = real_of_int (burst_size cfg),
      rate = requests_per_second cfg, last_update = now,
      tb_total_requests = 0, tb_accepted_requests = 0, tb_rejected_requests = 0\<rparr>"

definition refill_tokens :: "real \<Rightarrow> TokenBucketRateLimiter \<Rightarrow> TokenBucketRateLimiter" where
  "refill_tokens now tb =
     (let elapsed = now - last_update tb;
          tokens_to_add = elapsed * rate tb
      in tb\<lparr>tokens := min (real_of_int (capacity tb)) (tokens tb + tokens_to_add),
            last_update := now\<rparr>)"

definition tb_allow_request :: "real \<Rightarrow> int \<Rightarrow> TokenBucketRateLimiter
    \<Rightarrow> bool \<times> TokenBucketRateLimiter" where
  "tb_allow_request now cost tb =
     (let tb1 = refill_tokens now (tb\<lparr>tb_total_requests := tb_total_requests tb + 1\<rparr>)
      in if tokens tb1 \<ge> real_of_int cost
         then (True, tb1\<lparr>tokens := tokens tb1 - real_of_int cost,
                          tb_accepted_requests := tb_accepted_requests tb1 + 1\<rparr>)
         else (False, tb1\<lparr>tb_rejected_requests := tb_rejected_requests tb1 + 1\<rparr>))"

text \<open>Python's \<open>int(x)\<close> on a float truncates toward zero.\<close>

definition py_int :: "real \<Rightarrow> int" where
  "py_int x = (if 0 \<le> x then \<lfloor>x\<rfloor> else \<lceil>x\<rceil>)"

record SlidingWindowRateLimiter =
  sw_config :: RateLimitConfig
  sw_window_size :: real
  max_requests :: int
  request_times :: "real list"
  sw_total_requests :: int
  sw_accepted_requests :: int
  sw_rejected_requests :: int
  windows_processed :: int

definition SlidingWindowRateLimiter_init :: "RateLimitConfig \<Rightarrow> SlidingWindowRateLimiter" where
  "SlidingWindowRateLimiter_init cfg =
     \<lparr>sw_config = cfg, sw_window_size = 1, max_requests = py_int (requests_per_second cfg),
      request_times = [], sw_total_requests = 0, sw_accepted_requests = 0,
      sw_rejected_requests = 0, windows_processed = 0\<rparr>"

definition clean_old_requests :: "real \<Rightarrow> SlidingWindowRateLimiter \<Rightarrow> SlidingWindowRateLimiter" where
  "clean_old_requests now sw =
     (let window_start = now - sw_window_size sw
      in sw\<lparr>request_times := dropWhile (\<lambda>t. t < window_start) (request_times sw)\<rparr>)"

definition sw_allow_request :: "real \<Rightarrow> real \<Rightarrow> SlidingWindowRateLimiter
    \<Rightarrow> bool \<times> SlidingWindowRateLimiter" where
  "sw_allow_request now later sw =
     (let sw1 = clean_old_requests now (sw\<lparr>sw_total_requests := sw_total_requests sw + 1\<rparr>)
      in if int (length (request_times sw1)) < max_requests sw1
         then (True, sw1\<lparr>request_times := request_times sw1 @ [later],
                          sw_accepted_requests := sw_accepted_requests sw1 + 1\<rparr>)
         else (False, sw1\<lparr>sw_rejected_requests := sw_rejected_requests sw1 + 1\<rparr>))"

fun sw_run :: "(real \<times> real) list \<Rightarrow> SlidingWindowRateLimiter
    \<Rightarrow> bool list \<times> SlidingWindowRateLimiter" where
  "sw_run [] sw = ([], sw)"
| "sw_run ((now, later) # ts) sw =
     (case sw_allow_request now later sw of
        (ok, sw1) \<Rightarrow> (case sw_run ts sw1 of (oks, sw2) \<Rightarrow> (ok # oks, sw2)))"

fun tb_run :: "(real \<times> int) list \<Rightarrow> TokenBucketRateLimiter
    \<Rightarrow> bool list \<times> TokenBucketRateLimiter" where
  "tb_run [] tb = ([], tb)"
| "tb_run ((now, cost) # cs) tb =
     (case tb_allow_request now cost tb of
        (ok, tb1) \<Rightarrow> (case tb_run cs tb1 of (oks, tb2) \<Rightarrow> (ok # oks, tb2)))"

section \<open>Least connections (plugins/least\_connections.py)\<close>

record LeastConnectionsAlgorithm =
  lc_servers :: "string list"
  lc_connections :: "string \<rightharpoonup> int"

definition LeastConnectionsAlgorithm_init :: "string list \<Rightarrow> py_error + LeastConnectionsAlgorithm" where
  "LeastConnectionsAlgorithm_init servers =
     (if servers = [] then Inl ValueError
      else Inr \<lparr>lc_servers = servers, lc_connections = Map.empty\<rparr>)"

text \<open>Reading \<open>d[k]\<close> from a \<open>defaultdict(int)\<close> stores 0 under a missing key.\<close>

definition defaultdict_get :: "(string \<rightharpoonup> int) \<Rightarrow> string \<Rightarrow> int \<times> (string \<rightharpoonup> int)" where
  "defaultdict_get d k = (case d k of Some v \<Rightarrow> (v, d) | None \<Rightarrow> (0, d(k \<mapsto> 0)))"

text \<open>The scan of \<open>get_next_server\<close>; \<open>min_connections = None\<close> stands for
  \<open>float('inf')\<close>.\<close>

fun scan_servers :: "string list \<Rightarrow> (string \<rightharpoonup> int) \<Rightarrow> int option \<Rightarrow> string option
    \<Rightarrow> (string \<rightharpoonup> int) \<times> int option \<times> string option" where
  "scan_servers [] d min_connections selected_server = (d, min_connections, selected_server)"
| "scan_servers (server # rest) d min_connections selected_server =
     (case defaultdict_get d server of
        (current_connections, d1) \<Rightarrow>
          if (case min_connections of None \<Rightarrow> True | Some m \<Rightarrow> current_connections < m)
          then scan_servers rest d1 (Some current_connections) (Some server)
          else scan_servers rest d1 min_connections selected_server)"

definition get_next_server :: "LeastConnectionsAlgorithm
    \<Rightarrow> string option \<times> LeastConnectionsAlgorithm" where
  "get_next_server lc =
     (if lc_servers lc = [] then (None, lc)
      else (case scan_servers (lc_servers lc) (lc_connections lc) None None of
              (d, min_connections, selected_server) \<Rightarrow>
                (case selected_server of
                   None \<Rightarrow> (None, lc\<lparr>lc_connections := d\<rparr>)
                 | Some s \<Rightarrow>
                     if s \<noteq> []
                     then (case defaultdict_get d s of
                             (c, d1) \<Rightarrow> (Some s, lc\<lparr>lc_connections := d1(s \<mapsto> c + 1)\<rparr>))
                     else (Some s, lc\<lparr>lc_connections := d\<rparr>))))"


definition add_server :: "string \<Rightarrow> LeastConnectionsAlgorithm \<Rightarrow> LeastConnectionsAlgorithm" where
  "add_server server lc =
     (if server \<notin> set (lc_servers lc)
      then lc\<lparr>lc_servers := lc_servers lc @ [server],
               lc_connections := (lc_connections lc)(server \<mapsto> 0)\<rparr>
      else lc)"

definition remove_server :: "string \<Rightarrow> LeastConnectionsAlgorithm \<Rightarrow> bool \<times> LeastConnectionsAlgorithm" where
  "remove_server server lc =
     (if server \<in> set (lc_servers lc)
      then (True, lc\<lparr>lc_servers := remove1 server (lc_servers lc),
                     lc_connections := (lc_connections lc)(server := None)\<rparr>)
      else (False, lc))"


text \<open>Auxiliary notions for the proofs about the scan.\<close>

definition dcount :: "(string \<rightharpoonup> int) \<Rightarrow> string \<Rightarrow> int" where
  "dcount d k = (case d k of None \<Rightarrow> 0 | Some c \<Rightarrow> c)"


section \<open>IP hash (plugins/ip\_hash.py)\<close>

record IPHashPlugin =
  backend_cache :: "string \<rightharpoonup> string"
  iph_total_requests :: int
  cache_hits :: int
  unique_clients :: int






definition clear_cache :: "IPHashPlugin \<Rightarrow> IPHashPlugin" where
  "clear_cache p = p\<lparr>backend_cache := Map.empty, unique_clients := 0\<rparr>"


section \<open>Connection pool (core/connection\_pool.py)\<close>

datatype ConnectionState = IDLE | IN_USE | INVALID

record PoolConfig =
  min_connections :: int
  max_connections :: int
  idle_timeout :: real
  max_lifetime :: real
  health_check_interval :: real

text \<open>
  The object a connection factory returns is opaque to the pool.  The pool compares it
  with \<open>==\<close> (in \<open>release\<close>), asks whether it has a \<open>close\<close> attribute and calls it;
  \<open>raw_connection\<close> carries an identity for the comparison and what \<open>close()\<close> does.
  Without a factory the pool uses the string \<open>"Connection to <backend>"\<close>, the same
  value for every connection, which has no \<open>close\<close> attribute.
\<close>

datatype close_behaviour = NoCloseMethod | CloseReturns | CloseRaises

datatype raw_connection = RawConnection nat close_behaviour

fun on_close :: "raw_connection \<Rightarrow> close_behaviour" where
  "on_close (RawConnection ident c) = c"

definition simulated_connection :: raw_connection where
  "simulated_connection = RawConnection 0 NoCloseMethod"

text \<open>The id string \<open>"<backend>_conn_<k>"\<close> of a pooled connection is represented by
  the number \<open>k\<close>.\<close>

record PooledConnection =
  connection_id :: int
  connection :: raw_connection
  pc_state :: ConnectionState
  created_at :: real
  last_used :: real
  use_count :: int

definition PooledConnection_init :: "real \<Rightarrow> int \<Rightarrow> raw_connection \<Rightarrow> PooledConnection" where
  "PooledConnection_init now cid conn =
     \<lparr>connection_id = cid, connection = conn, pc_state = IDLE, created_at = now,
      last_used = now, use_count = 0\<rparr>"

definition is_expired :: "real \<Rightarrow> real \<Rightarrow> PooledConnection \<Rightarrow> bool" where
  "is_expired now lifetime c = (now - created_at c > lifetime)"

definition is_idle_timeout :: "real \<Rightarrow> real \<Rightarrow> PooledConnection \<Rightarrow> bool" where
  "is_idle_timeout now limit c =
     (if pc_state c \<noteq> IDLE then False else now - last_used c > limit)"

definition mark_used :: "real \<Rightarrow> PooledConnection \<Rightarrow> PooledConnection" where
  "mark_used now c = c\<lparr>pc_state := IN_USE, last_used := now, use_count := use_count c + 1\<rparr>"

definition mark_idle :: "real \<Rightarrow> PooledConnection \<Rightarrow> PooledConnection" where
  "mark_idle now c = c\<lparr>pc_state := IDLE, last_used := now\<rparr>"

text \<open>
  The pool.  \<open>connections\<close> is the dictionary from connection id to pooled connection,
  in insertion order.  The queue \<open>available\<close> holds references to pooled connections;
  a reference is the connection's id, which no two connections of a pool share, so the
  object a queue entry refers to is the dictionary's entry under that id (or a closed
  connection, of which only the id is ever read).  \<open>connection_factory\<close> is \<open>None\<close> or a
  factory whose \<open>k\<close>-th call returns \<open>Some\<close> connection or raises (\<open>None\<close>);
  \<open>factory_calls\<close> counts the calls made so far.
\<close>

record ConnectionPool =
  backend_id :: string
  pool_config :: PoolConfig
  connection_factory :: "(nat \<Rightarrow> raw_connection option) option"
  factory_calls :: nat
  connections :: "(int \<times> PooledConnection) list"
  available :: "int list"
  created_connections :: int
  reused_connections :: int
  closed_connections :: int
  current_active :: int
  current_idle :: int
  pool_exhausted_count :: int
  running :: bool

definition ConnectionPool_init :: "string \<Rightarrow> PoolConfig \<Rightarrow> (nat \<Rightarrow> raw_connection option) option
    \<Rightarrow> ConnectionPool" where
  "ConnectionPool_init bid cfg factory =
     \<lparr>backend_id = bid, pool_config = cfg, connection_factory = factory, factory_calls = 0,
      connections = [], available = [], created_connections = 0, reused_connections = 0,
      closed_connections = 0, current_active = 0, current_idle = 0, pool_exhausted_count = 0,
      running = False\<rparr>"

text \<open>\<open>del d[k]\<close>.\<close>

definition dict_del :: "('k \<times> 'v) list \<Rightarrow> 'k \<Rightarrow> ('k \<times> 'v) list" where
  "dict_del d k = filter (\<lambda>e. fst e \<noteq> k) d"

definition register_connection :: "real \<Rightarrow> raw_connection \<Rightarrow> ConnectionPool
    \<Rightarrow> PooledConnection option \<times> ConnectionPool" where
  "register_connection now conn p =
     (let pooled_conn = PooledConnection_init now (created_connections p) conn
      in (Some pooled_conn,
          p\<lparr>connections := dict_set (connections p) (created_connections p) pooled_conn,
            created_connections := created_connections p + 1,
            current_idle := current_idle p + 1\<rparr>))"

definition create_connection :: "real \<Rightarrow> ConnectionPool \<Rightarrow> PooledConnection option \<times> ConnectionPool" where
  "create_connection now p =
     (if int (length (connections p)) \<ge> max_connections (pool_config p) then (None, p)
      else (case connection_factory p of
              None \<Rightarrow> register_connection now simulated_connection p
            | Some factory \<Rightarrow>
                (case factory (factory_calls p) of
                   None \<Rightarrow> (None, p\<lparr>factory_calls := Suc (factory_calls p)\<rparr>)
                 | Some conn \<Rightarrow>
                     register_connection now conn (p\<lparr>factory_calls := Suc (factory_calls p)\<rparr>))))"

text \<open>\<open>_close_connection\<close>: an exception of \<open>close()\<close> is caught and leaves the pool as
  it is.\<close>

definition close_connection :: "PooledConnection \<Rightarrow> ConnectionPool \<Rightarrow> ConnectionPool" where
  "close_connection conn p =
     (if on_close (connection conn) = CloseRaises then p
      else if connection_id conn \<in> fst ` set (connections p)
        then (let p1 = p\<lparr>connections := dict_del (connections p) (connection_id conn),
                         closed_connections := closed_connections p + 1\<rparr>
              in if pc_state conn = IDLE
                 then p1\<lparr>current_idle := max 0 (current_idle p1 - 1)\<rparr>
                 else p1\<lparr>current_active := max 0 (current_active p1 - 1)\<rparr>)
        else p)"

fun create_times :: "nat \<Rightarrow> real \<Rightarrow> ConnectionPool \<Rightarrow> ConnectionPool" where
  "create_times 0 now p = p"
| "create_times (Suc n) now p = create_times n now (snd (create_connection now p))"

text \<open>\<open>start()\<close>; the maintenance thread it launches is the operation
  \<open>perform_maintenance\<close> below, run at times of the scheduler's choosing.\<close>

definition start :: "real \<Rightarrow> ConnectionPool \<Rightarrow> ConnectionPool" where
  "start now p =
     (if running p then p
      else create_times (nat (min_connections (pool_config p))) now (p\<lparr>running := True\<rparr>))"

text \<open>
  The loop of \<open>stop()\<close> iterates over \<open>self.connections.values()\<close> while
  \<open>_close_connection\<close> deletes from that dictionary: once an iteration has changed the
  size of the dictionary, the iterator's next step raises \<open>RuntimeError\<close>
  (dictionary changed size during iteration), also when no entry is left to visit.
\<close>

fun stop_loop :: "PooledConnection list \<Rightarrow> ConnectionPool \<Rightarrow> py_error option \<times> ConnectionPool" where
  "stop_loop [] p = (None, p)"
| "stop_loop (conn # rest) p =
     (let p1 = close_connection conn p
      in if length (connections p1) \<noteq> length (connections p) then (Some RuntimeError, p1)
         else stop_loop rest p1)"

definition stop :: "ConnectionPool \<Rightarrow> py_error option \<times> ConnectionPool" where
  "stop p =
     (let p1 = p\<lparr>running := False\<rparr>
      in case stop_loop (map snd (connections p1)) p1 of
           (Some e, p2) \<Rightarrow> (Some e, p2)
         | (None, p2) \<Rightarrow> (None, p2\<lparr>connections := [], available := []\<rparr>))"

definition acquire_new :: "real \<Rightarrow> ConnectionPool \<Rightarrow> raw_connection option \<times> ConnectionPool" where
  "acquire_new now p =
     (case create_connection now p of
        (Some conn, p1) \<Rightarrow>
          (Some (connection conn),
           p1\<lparr>connections := dict_set (connections p1) (connection_id conn) (mark_used now conn),
              current_idle := max 0 (current_idle p1 - 1),
              current_active := current_active p1 + 1\<rparr>)
      | (None, p1) \<Rightarrow> (None, p1\<lparr>pool_exhausted_count := pool_exhausted_count p1 + 1\<rparr>))"

text \<open>\<open>acquire(timeout)\<close> with no other thread running: \<open>available.get\<close> returns the
  head of a non-empty queue and raises \<open>queue.Empty\<close> after the timeout otherwise.\<close>

definition acquire :: "real \<Rightarrow> ConnectionPool \<Rightarrow> raw_connection option \<times> ConnectionPool" where
  "acquire now p =
     (case available p of
        [] \<Rightarrow> acquire_new now p
      | cid # rest \<Rightarrow>
          (let p1 = p\<lparr>available := rest\<rparr>
           in case map_of (connections p1) cid of
                Some conn \<Rightarrow>
                  (Some (connection conn),
                   p1\<lparr>connections := dict_set (connections p1) cid (mark_used now conn),
                      reused_connections := reused_connections p1 + 1,
                      current_idle := max 0 (current_idle p1 - 1),
                      current_active := current_active p1 + 1\<rparr>)
              | None \<Rightarrow> acquire_new now p1))"

definition release :: "real \<Rightarrow> raw_connection \<Rightarrow> ConnectionPool \<Rightarrow> ConnectionPool" where
  "release now c p =
     (case find (\<lambda>e. connection (snd e) = c) (connections p) of
        None \<Rightarrow> p
      | Some (cid, conn) \<Rightarrow>
          p\<lparr>connections := dict_set (connections p) cid (mark_idle now conn),
            available := available p @ [cid],
            current_active := max 0 (current_active p - 1),
            current_idle := current_idle p + 1\<rparr>)"

text \<open>The first loop of \<open>_perform_maintenance\<close> reads \<open>len(self.connections)\<close> while
  nothing has been closed yet, so the guard is the same for every connection.\<close>

definition connections_to_close :: "real \<Rightarrow> ConnectionPool \<Rightarrow> PooledConnection list" where
  "connections_to_close now p =
     filter (\<lambda>conn. pc_state conn = IDLE \<and>
                     (is_expired now (max_lifetime (pool_config p)) conn \<or>
                      is_idle_timeout now (idle_timeout (pool_config p)) conn) \<and>
                     int (length (connections p)) > min_connections (pool_config p))
       (map snd (connections p))"

lemma length_dict_set_old: "k \<in> fst ` set d \<Longrightarrow> length (dict_set d k v) = length d"
  by (induction d) force+

lemma length_dict_set_new: "k \<notin> fst ` set d \<Longrightarrow> length (dict_set d k v) = Suc (length d)"
  by (induction d) auto

lemma length_dict_set:
  "length (dict_set d k v) = (if k \<in> fst ` set d then length d else Suc (length d))"
  using length_dict_set_old[of k d v] length_dict_set_new[of k d v] by simp

lemma filter_dict_set_above:
  "filter (\<lambda>e. k + 1 \<le> fst e) (dict_set d k v) = filter (\<lambda>e. k + 1 \<le> fst e) d" for k :: int
  by (induction d) auto

lemma filter_above_less:
  "k \<in> fst ` set d \<Longrightarrow> length (filter (\<lambda>e. k + 1 \<le> fst e) d) < length (filter (\<lambda>e. k \<le> fst e) d)"
  for k :: int
proof (induction d)
  case Nil
  then show ?case by simp
next
  case (Cons e d)
  have le: "length (filter (\<lambda>e. k + 1 \<le> fst e) d) \<le> length (filter (\<lambda>e. k \<le> fst e) d)"
    by (induction d) auto
  show ?case
  proof (cases "fst e = k")
    case True
    then show ?thesis using le by simp
  next
    case False
    then show ?thesis using Cons by auto
  qed
qed

lemma filter_above_same:
  "k \<notin> fst ` set d \<Longrightarrow> filter (\<lambda>e. k + 1 \<le> fst e) d = filter (\<lambda>e. k \<le> fst e) d"
  for k :: int
  by (induction d) auto

lemma create_connection_Some:
  assumes "create_connection now p = (Some c, p1)"
  shows "connections p1 = dict_set (connections p) (created_connections p) c"
    and "created_connections p1 = created_connections p + 1"
    and "pool_config p1 = pool_config p" and "connection_id c = created_connections p"
    and "int (length (connections p)) < max_connections (pool_config p)"
  using assms
  by (auto simp: create_connection_def register_connection_def Let_def PooledConnection_init_def
      split: if_splits option.splits)

lemma create_connection_measure:
  assumes lt: "int (length (connections p)) < min_connections (pool_config p)"
      and cc: "create_connection now p = (Some c, y)"
  shows "nat (min_connections (pool_config y) - int (length (connections y))) +
           length (filter (\<lambda>e. created_connections y \<le> fst e) (connections y))
         < nat (min_connections (pool_config p) - int (length (connections p))) +
           length (filter (\<lambda>e. created_connections p \<le> fst e) (connections p))"
proof (cases "created_connections p \<in> fst ` set (connections p)")
  case True
  then show ?thesis
    using lt filter_above_less[OF True]
    by (simp add: create_connection_Some[OF cc] length_dict_set filter_dict_set_above)
next
  case False
  then show ?thesis
    using lt filter_above_same[OF False]
    by (simp add: create_connection_Some[OF cc] length_dict_set filter_dict_set_above)
qed

text \<open>The \<open>while len(self.connections) < min_connections\<close> loop of
  \<open>_perform_maintenance\<close>.\<close>

function top_up :: "real \<Rightarrow> ConnectionPool \<Rightarrow> ConnectionPool" where
  "top_up now p =
     (if int (length (connections p)) < min_connections (pool_config p)
      then (case create_connection now p of
              (Some conn, p1) \<Rightarrow> top_up now (p1\<lparr>available := available p1 @ [connection_id conn]\<rparr>)
            | (None, p1) \<Rightarrow> p1)
      else p)"
  by pat_completeness auto
termination
  apply (relation "measure (\<lambda>(now, p).
          nat (min_connections (pool_config p) - int (length (connections p))) +
          length (filter (\<lambda>e. created_connections p \<le> fst e) (connections p)))")
   apply simp
  apply simp
  apply (rule create_connection_measure, assumption, erule sym)
  done

definition perform_maintenance :: "real \<Rightarrow> ConnectionPool \<Rightarrow> ConnectionPool" where
  "perform_maintenance now p =
     top_up now (fold close_connection (connections_to_close now p) p)"

text \<open>Sequences of pool operations, each with the clock value it reads.\<close>

datatype pool_op = Acquire real | Release real raw_connection | Maintenance real

fun apply_pool_op :: "pool_op \<Rightarrow> ConnectionPool \<Rightarrow> ConnectionPool" where
  "apply_pool_op (Acquire now) p = snd (acquire now p)"
| "apply_pool_op (Release now c) p = release now c p"
| "apply_pool_op (Maintenance now) p = perform_maintenance now p"

definition run_pool_ops :: "pool_op list \<Rightarrow> ConnectionPool \<Rightarrow> ConnectionPool" where
  "run_pool_ops ops p = fold apply_pool_op ops p"

definition factory_reliable :: "(nat \<Rightarrow> raw_connection option) option \<Rightarrow> bool" where
  "factory_reliable factory = (case factory of None \<Rightarrow> True | Some f \<Rightarrow> \<forall>k. f k \<noteq> None)"

definition pool_inv :: "PoolConfig \<Rightarrow> (nat \<Rightarrow> raw_connection option) option \<Rightarrow> ConnectionPool \<Rightarrow> bool" where
  "pool_inv cfg factory p =
     (pool_config p = cfg \<and> connection_factory p = factory \<and>
      list_all (\<lambda>e. fst e < created_connections p) (connections p) \<and>
      int (length (connections p)) \<le> max_connections cfg)"

section \<open>Example states used by the concrete evaluations\<close>

definition example_breaker_config :: CircuitBreakerConfig where
  "example_breaker_config =
     \<lparr>failure_threshold = 3, success_threshold = 1, timeout = 60, window_size = 10\<rparr>"

definition failing_call :: "real \<Rightarrow> CircuitBreaker \<Rightarrow> CircuitBreaker" where
  "failing_call t cb = snd (call t t (Inl ValueError :: py_error + unit) cb)"

definition tripped_breaker :: CircuitBreaker where
  "tripped_breaker =
     failing_call 3 (failing_call 2 (failing_call 1 (CircuitBreaker_init example_breaker_config)))"

definition rr_after_two :: RoundRobinAlgorithm where
  "rr_after_two =
     snd (select_server (snd (select_server RoundRobinAlgorithm_init [''s1'', ''s2'', ''s3'']))
            [''s1'', ''s2'', ''s3''])"





definition example_wrr :: WeightedRoundRobinPlugin where
  "example_wrr = (case set_backend_weight ''a'' 1 WeightedRoundRobinPlugin_init of
      Inr p \<Rightarrow> (case set_backend_weight ''b'' 2 p of Inr q \<Rightarrow> q))"

definition example_pool_config :: PoolConfig where
  "example_pool_config =
     \<lparr>min_connections = 0, max_connections = 1, idle_timeout = 300, max_lifetime = 3600,
      health_check_interval = 60\<rparr>"


definition small_pool :: ConnectionPool where
  "small_pool =
     start 0 (ConnectionPool_init ''b1''
                (example_pool_config\<lparr>min_connections := 2, max_connections := 3\<rparr>) None)"

definition failing_factory :: "nat \<Rightarrow> raw_connection option" where
  "failing_factory k = None"

definition unreachable_pool :: ConnectionPool where
  "unreachable_pool =
     start 0 (ConnectionPool_init ''b1''
                (example_pool_config\<lparr>min_connections := 2, max_connections := 3\<rparr>)
                (Some failing_factory))"




section \<open>Properties of the circuit breaker\<close>

lemma is_available_value:
  "fst (is_available now cb) =
     (cb_state cb = CLOSED \<or> cb_state cb = HALF_OPEN \<or>
      (cb_state cb = OPEN \<and> now - last_failure_time cb \<ge> timeout (cb_config cb)))"
  by (cases "cb_state cb") (simp_all add: is_available_def should_attempt_reset_def)

lemma tripped_breaker_fields:
  "cb_state tripped_breaker = OPEN" "last_failure_time tripped_breaker = 3"
  "timeout (cb_config tripped_breaker) = 60"
  by (simp_all add: tripped_breaker_def failing_call_def call_def CircuitBreaker_init_def
      example_breaker_config_def should_attempt_reset_def record_failure_def
      trim_history_def change_state_def Let_def)

text \<open>
  Claim C1 as stated fails: three consecutive failures open the breaker at time 3;
  at time 100 (timeout 60 elapsed) \<open>is_available()\<close> answers \<open>True\<close>, and the
  \<open>get_state()\<close> that follows still observes \<open>OPEN\<close>, not \<open>HALF_OPEN\<close>.
\<close>

theorem is_available_no_transition_counterexample:
  "fst (is_available 100 tripped_breaker) \<and>
   get_state (snd (is_available 100 tripped_breaker)) = OPEN \<and>
   get_state (snd (is_available 100 tripped_breaker)) \<noteq> HALF_OPEN"
  by (simp add: is_available_def should_attempt_reset_def get_state_def tripped_breaker_fields)

text \<open>
  Claim C1, amended: \<open>is_available()\<close> returns true exactly when the state is Closed or
  HalfOpen, or the state is Open and \<open>now - last_transition_time >= timeout\<close>; the query
  changes nothing, so the next \<open>get_state()\<close> observes the state the breaker had before
  the query (Open in the last case).
\<close>

theorem is_available_pure_query:
  "is_available now cb =
     (cb_state cb = CLOSED \<or> cb_state cb = HALF_OPEN \<or>
        (cb_state cb = OPEN \<and> now - last_failure_time cb \<ge> timeout (cb_config cb)), cb)
   \<and> get_state (snd (is_available now cb)) = get_state cb"
  by (cases "cb_state cb") (simp_all add: is_available_def should_attempt_reset_def)

theorem is_available_pure_query_witness:
  "is_available 100 tripped_breaker = (True, tripped_breaker) \<and>
   get_state (snd (is_available 100 tripped_breaker)) = OPEN"
  using is_available_pure_query [of 100 tripped_breaker]
  by (simp add: tripped_breaker_fields get_state_def)

text \<open>The transition to HalfOpen is made by \<open>call\<close>, the sibling entry point.\<close>

lemma call_moves_to_half_open:
  "should_attempt_reset now cb \<Longrightarrow> cb_state (snd (call now later (Inr r) cb)) \<noteq> OPEN"
  by (auto simp: call_def should_attempt_reset_def change_state_def record_success_def
      trim_history_def Let_def split: if_splits)

section \<open>Properties of round robin\<close>

lemma select_server_empty: "select_server rr [] = (Inr None, rr)"
  by (simp add: select_server_def)

lemma select_server_in_range:
  assumes "0 \<le> rr_current_index rr" "rr_current_index rr < int (length servers)"
  shows "select_server rr servers =
           (Inr (Some (servers ! nat (rr_current_index rr mod int (length servers)))),
            rr\<lparr>rr_current_index := (rr_current_index rr + 1) mod int (length servers)\<rparr>)"
  using assms by (auto simp: select_server_def py_index_def Let_def)

lemma rr_after_two_index: "rr_current_index rr_after_two = 2"
  by (simp add: rr_after_two_def select_server_def py_index_def RoundRobinAlgorithm_init_def)

text \<open>
  Claim C2 on the code: after two selections over three servers the index is 2; a
  selection over a list of two servers then raises \<open>IndexError\<close> where the claim
  promises the element at position \<open>2 mod 2 = 0\<close>.
\<close>

theorem select_server_shrunk_list_raises:
  "rr_current_index rr_after_two = 2 \<and>
   fst (select_server rr_after_two [''s1'', ''s2'']) = Inl IndexError \<and>
   fst (select_server rr_after_two [''s1'', ''s2'']) \<noteq> Inr (Some ([''s1'', ''s2''] ! (2 mod 2)))"
  by (simp add: select_server_def py_index_def rr_after_two_index)


section \<open>Properties of the token bucket\<close>

lemma refill_tokens_value:
  "tokens (refill_tokens now tb) =
     min (real_of_int (capacity tb)) (tokens tb + (now - last_update tb) * rate tb)"
  "capacity (refill_tokens now tb) = capacity tb" "rate (refill_tokens now tb) = rate tb"
  "last_update (refill_tokens now tb) = now"
  by (simp_all add: refill_tokens_def Let_def)

lemma refill_tokens_full:
  assumes "0 \<le> tokens tb" "0 < rate tb" "real_of_int (capacity tb) / rate tb \<le> now - last_update tb"
  shows "tokens (refill_tokens now tb) = real_of_int (capacity tb)"
proof -
  have "real_of_int (capacity tb) \<le> (now - last_update tb) * rate tb"
    using assms(2,3) by (simp add: pos_divide_le_eq)
  then show ?thesis using assms(1) by (simp add: refill_tokens_value)
qed

lemma tb_allow_request_step:
  assumes "0 \<le> cost" "0 \<le> tokens tb" "tokens tb \<le> real_of_int (capacity tb)"
      and "0 \<le> rate tb" "last_update tb \<le> now"
  shows "tokens (refill_tokens now tb) =
           min (real_of_int (capacity tb)) (tokens tb + (now - last_update tb) * rate tb)
       \<and> fst (tb_allow_request now cost tb) = (real_of_int cost \<le> tokens (refill_tokens now tb))
       \<and> tokens (snd (tb_allow_request now cost tb)) =
           (if real_of_int cost \<le> tokens (refill_tokens now tb)
            then tokens (refill_tokens now tb) - real_of_int cost
            else tokens (refill_tokens now tb))
       \<and> 0 \<le> tokens (snd (tb_allow_request now cost tb))
       \<and> tokens (snd (tb_allow_request now cost tb))
           \<le> real_of_int (capacity (snd (tb_allow_request now cost tb)))
       \<and> capacity (snd (tb_allow_request now cost tb)) = capacity tb
       \<and> (0 < rate tb \<and> real_of_int (capacity tb) / rate tb \<le> now - last_update tb
            \<longrightarrow> tokens (refill_tokens now tb) = real_of_int (capacity tb))"
proof -
  have e: "0 \<le> (now - last_update tb) * rate tb" using assms(4,5) by simp
  have r: "tokens (refill_tokens now (tb\<lparr>tb_total_requests := tb_total_requests tb + 1\<rparr>))
             = tokens (refill_tokens now tb)"
    by (simp add: refill_tokens_def Let_def)
  have r0: "0 \<le> tokens (refill_tokens now tb)"
    using e assms(2,3) by (simp add: refill_tokens_value)
  have r1: "tokens (refill_tokens now tb) \<le> real_of_int (capacity tb)"
    by (simp add: refill_tokens_value)
  have full: "0 < rate tb \<and> real_of_int (capacity tb) / rate tb \<le> now - last_update tb
            \<longrightarrow> tokens (refill_tokens now tb) = real_of_int (capacity tb)"
    using refill_tokens_full[OF assms(2)] by blast
  have adm: "fst (tb_allow_request now cost tb) = (real_of_int cost \<le> tokens (refill_tokens now tb))"
    using r by (simp add: tb_allow_request_def Let_def)
  have tk: "tokens (snd (tb_allow_request now cost tb)) =
           (if real_of_int cost \<le> tokens (refill_tokens now tb)
            then tokens (refill_tokens now tb) - real_of_int cost
            else tokens (refill_tokens now tb))"
    using r by (simp add: tb_allow_request_def Let_def)
  have cp: "capacity (snd (tb_allow_request now cost tb)) = capacity tb"
    by (simp add: tb_allow_request_def Let_def refill_tokens_value)
  have lo: "0 \<le> tokens (snd (tb_allow_request now cost tb))"
    using r0 by (simp add: tk)
  have hi: "tokens (snd (tb_allow_request now cost tb)) \<le> real_of_int (capacity tb)"
    using r1 assms(1) by (simp add: tk)
  show ?thesis
    using adm tk cp lo hi full by (simp add: refill_tokens_value(1))
qed




text \<open>The invariant holds initially and along every run of admissible requests.\<close>

lemma tb_init_invariant:
  "0 \<le> burst_size cfg \<Longrightarrow>
     0 \<le> tokens (TokenBucketRateLimiter_init t0 cfg) \<and>
     tokens (TokenBucketRateLimiter_init t0 cfg)
       \<le> real_of_int (capacity (TokenBucketRateLimiter_init t0 cfg))"
  by (simp add: TokenBucketRateLimiter_init_def)

lemma tb_allow_request_fields:
  "rate (snd (tb_allow_request now cost tb)) = rate tb"
  "last_update (snd (tb_allow_request now cost tb)) = now"
  by (simp_all add: tb_allow_request_def Let_def refill_tokens_value)

lemma tb_run_invariant:
  assumes "0 \<le> tokens tb" "tokens tb \<le> real_of_int (capacity tb)" "0 \<le> rate tb"
      and "sorted (last_update tb # map fst cs)" "list_all (\<lambda>c. 0 \<le> snd c) cs"
  shows "0 \<le> tokens (snd (tb_run cs tb)) \<and>
         tokens (snd (tb_run cs tb)) \<le> real_of_int (capacity (snd (tb_run cs tb)))"
  using assms
proof (induction cs arbitrary: tb)
  case Nil
  then show ?case by simp
next
  case (Cons c cs)
  obtain now cost where c: "c = (now, cost)" by (cases c)
  let ?tb1 = "snd (tb_allow_request now cost tb)"
  have h: "0 \<le> cost" "last_update tb \<le> now" using Cons.prems(4,5) c by simp_all
  from tb_allow_request_step[OF h(1) Cons.prems(1,2,3) h(2)]
  have i1: "0 \<le> tokens ?tb1" "tokens ?tb1 \<le> real_of_int (capacity ?tb1)" by blast+
  have s: "sorted (last_update ?tb1 # map fst cs)"
    using Cons.prems(4) c by (simp add: tb_allow_request_fields)
  have "0 \<le> tokens (snd (tb_run cs ?tb1)) \<and>
        tokens (snd (tb_run cs ?tb1)) \<le> real_of_int (capacity (snd (tb_run cs ?tb1)))"
    using Cons.prems(3,5) by (intro Cons.IH i1 s) (simp_all add: tb_allow_request_fields)
  then show ?case by (simp add: c case_prod_beta)
qed

section \<open>Properties of the sliding window\<close>

lemma sw_allow_request_rejects:
  assumes "max_requests sw \<le> 0"
  shows "fst (sw_allow_request now later sw) = False"
    and "max_requests (snd (sw_allow_request now later sw)) = max_requests sw"
  using assms by (simp_all add: sw_allow_request_def clean_old_requests_def Let_def)

lemma sw_run_rejects:
  "max_requests sw \<le> 0 \<Longrightarrow> fst (sw_run ts sw) = replicate (length ts) False"
proof (induction ts arbitrary: sw)
  case Nil
  then show ?case by simp
next
  case (Cons t ts)
  obtain now later where t: "t = (now, later)" by (cases t)
  have "fst (sw_run ts (snd (sw_allow_request now later sw))) = replicate (length ts) False"
    using Cons.prems by (intro Cons.IH) (simp add: sw_allow_request_rejects)
  then show ?case
    using Cons.prems by (simp add: t case_prod_beta sw_allow_request_rejects)
qed


lemma py_int_negative: "x < 0 \<Longrightarrow> py_int x \<le> 0"
  by (simp add: py_int_def ceiling_le_iff)



lemma sw_negative_rate_rejects_all:
  assumes "requests_per_second cfg < 0"
  shows "max_requests (SlidingWindowRateLimiter_init cfg) \<le> 0 \<and>
         fst (sw_run ts (SlidingWindowRateLimiter_init cfg)) = replicate (length ts) False"
proof -
  have m: "max_requests (SlidingWindowRateLimiter_init cfg) \<le> 0"
    using assms by (simp add: SlidingWindowRateLimiter_init_def py_int_negative)
  then show ?thesis by (simp add: sw_run_rejects)
qed

section \<open>Properties of least connections\<close>


lemma defaultdict_get_key: "snd (defaultdict_get d k) k = Some (dcount d k)"
  by (auto simp: defaultdict_get_def dcount_def split: option.splits)












text \<open>An empty server address is selected without its count being incremented.\<close>

lemma get_next_server_empty_address:
  "get_next_server \<lparr>lc_servers = [[]], lc_connections = Map.empty\<rparr> =
     (Some [], \<lparr>lc_servers = [[]], lc_connections = [[] \<mapsto> 0]\<rparr>)"
  by (simp add: get_next_server_def defaultdict_get_def)

section \<open>Properties of IP hash\<close>











section \<open>Properties of weighted round robin\<close>

lemma map_of_dict_set: "map_of (dict_set d k v) = (map_of d)(k \<mapsto> v)"
  by (induction d) (auto simp: fun_eq_iff)

lemma dict_set_not_Nil: "dict_set d k v \<noteq> []"
  by (cases d) (auto split: if_splits)

lemma set_dict_set: "set (dict_set d k v) \<subseteq> insert (k, v) (set d)"
  by (induction d) (auto split: if_splits)

lemma dict_set_pos:
  "\<forall>e\<in>set d. 0 < snd e \<Longrightarrow> 0 < (v::int) \<Longrightarrow> \<forall>e\<in>set (dict_set d k v). 0 < snd e"
  using set_dict_set[of d k v] by fastforce

lemma foldl_gcd_dvd: "foldl gcd (x::int) xs dvd x \<and> (\<forall>y\<in>set xs. foldl gcd x xs dvd y)"
proof (induction xs arbitrary: x)
  case Nil
  then show ?case by simp
next
  case (Cons y ys)
  from Cons.IH[of "gcd x y"] show ?case
    by (auto intro: dvd_trans[OF _ gcd_dvd1] dvd_trans[OF _ gcd_dvd2])
qed

lemma foldl_gcd_pos: "0 < (x::int) \<Longrightarrow> 0 < foldl gcd x xs"
proof (induction xs arbitrary: x)
  case Nil
  then show ?case by simp
next
  case (Cons y ys)
  have "0 < gcd x y" using Cons.prems by (simp add: gcd_pos_int)
  then show ?case using Cons.IH by simp
qed

lemma gcd_list_dvd: "w \<in> set ws \<Longrightarrow> gcd_list_wrr ws dvd w"
  using foldl_gcd_dvd by (cases ws) auto

lemma gcd_list_pos: "ws \<noteq> [] \<Longrightarrow> \<forall>w\<in>set ws. 0 < w \<Longrightarrow> 0 < gcd_list_wrr ws"
  using foldl_gcd_pos by (cases ws) auto

lemma foldl_max_ge: "(x::int) \<le> foldl max x xs \<and> (\<forall>y\<in>set xs. y \<le> foldl max x xs)"
proof (induction xs arbitrary: x)
  case Nil
  then show ?case by simp
next
  case (Cons y ys)
  from Cons.IH[of "max x y"] show ?case by auto
qed

lemma max_list_ge: "w \<in> set ws \<Longrightarrow> w \<le> max_list ws"
  using foldl_max_ge by (cases ws) auto

lemma dict_set_keys:
  "map fst (dict_set d k v) = (if k \<in> fst ` set d then map fst d else map fst d @ [k])"
  by (induction d) (auto split: if_splits)

lemma dict_set_distinct: "distinct (map fst d) \<Longrightarrow> distinct (map fst (dict_set d k v))"
  by (simp add: dict_set_keys)

lemma wrr_init_consistent: "wrr_consistent WeightedRoundRobinPlugin_init"
  by (simp add: wrr_consistent_def WeightedRoundRobinPlugin_init_def)

lemma set_backend_weight_consistent:
  assumes "wrr_consistent p" "set_backend_weight b w p = Inr p'"
  shows "wrr_consistent p'"
    and "map_of (backend_weights p') = (map_of (backend_weights p))(b \<mapsto> w)"
    and "current_index p' = current_index p" "current_weight p' = current_weight p"
proof -
  have w: "0 < w" and p': "p' = recalculate_weights (p\<lparr>backend_weights := dict_set (backend_weights p) b w\<rparr>)"
    using assms(2) by (auto simp: set_backend_weight_def split: if_splits)
  have "\<forall>e\<in>set (dict_set (backend_weights p) b w). 0 < snd e"
    using assms(1) w by (intro dict_set_pos) (auto simp: wrr_consistent_def list_all_iff)
  moreover have "distinct (map fst (dict_set (backend_weights p) b w))"
    using assms(1) by (intro dict_set_distinct) (simp add: wrr_consistent_def)
  ultimately show "wrr_consistent p'"
    by (simp add: p' wrr_consistent_def recalculate_weights_def dict_set_not_Nil list_all_iff Let_def)
  show "map_of (backend_weights p') = (map_of (backend_weights p))(b \<mapsto> w)"
    by (simp add: p' recalculate_weights_def dict_set_not_Nil map_of_dict_set Let_def)
  show "current_index p' = current_index p" "current_weight p' = current_weight p"
    by (simp_all add: p' recalculate_weights_def dict_set_not_Nil Let_def)
qed

lemma ensure_weights_ok:
  assumes "wrr_consistent p"
  shows "\<exists>p1. ensure_weights bs p = Inr p1 \<and> wrr_consistent p1 \<and>
           (\<forall>b\<in>set bs. map_of (backend_weights p1) b \<noteq> None) \<and>
           (\<forall>b. map_of (backend_weights p) b \<noteq> None \<longrightarrow>
                 map_of (backend_weights p1) b = map_of (backend_weights p) b) \<and>
           current_index p1 = current_index p \<and> current_weight p1 = current_weight p"
  using assms
proof (induction bs arbitrary: p)
  case Nil
  then show ?case by simp
next
  case (Cons b bs)
  show ?case
  proof (cases "map_of (backend_weights p) b = None")
    case True
    obtain q where q: "set_backend_weight b 1 p = Inr q"
      by (simp add: set_backend_weight_def)
    note f = set_backend_weight_consistent[OF Cons.prems q]
    from Cons.IH[OF f(1)] obtain p1 where p1: "ensure_weights bs q = Inr p1" "wrr_consistent p1"
      "\<forall>b\<in>set bs. map_of (backend_weights p1) b \<noteq> None"
      "\<forall>b. map_of (backend_weights q) b \<noteq> None \<longrightarrow>
                 map_of (backend_weights p1) b = map_of (backend_weights q) b"
      "current_index p1 = current_index q" "current_weight p1 = current_weight q"
      by blast
    have "ensure_weights (b # bs) p = Inr p1" using True q p1(1) by simp
    moreover have "map_of (backend_weights p1) b \<noteq> None"
      using p1(4) f(2) by simp
    moreover have "\<forall>c. map_of (backend_weights p) c \<noteq> None \<longrightarrow>
                 map_of (backend_weights p1) c = map_of (backend_weights p) c"
      using p1(4) f(2) True by (metis fun_upd_apply)
    ultimately show ?thesis using p1 f(3,4) by auto
  next
    case False
    from Cons.IH[OF Cons.prems] obtain p1 where p1: "ensure_weights bs p = Inr p1" "wrr_consistent p1"
      "\<forall>b\<in>set bs. map_of (backend_weights p1) b \<noteq> None"
      "\<forall>b. map_of (backend_weights p) b \<noteq> None \<longrightarrow>
                 map_of (backend_weights p1) b = map_of (backend_weights p) b"
      "current_index p1 = current_index p" "current_weight p1 = current_weight p"
      by blast
    have "ensure_weights (b # bs) p = Inr p1"
      using False p1(1) by (simp del: not_None_eq)
    moreover have "map_of (backend_weights p1) b \<noteq> None" using p1(4) False by simp
    ultimately show ?thesis using p1 by auto
  qed
qed

lemma consistent_registered:
  assumes "wrr_consistent p" "map_of (backend_weights p) b \<noteq> None"
  shows "1 \<le> gcd_weight p" "gcd_weight p \<le> weight_of p b" "weight_of p b \<le> max_weight p"
proof -
  from assms(2) obtain w where w: "map_of (backend_weights p) b = Some w" by auto
  then have mem: "w \<in> set (map snd (backend_weights p))"
    by (metis map_of_SomeD set_zip_rightD zip_map_fst_snd)
  then have ne: "backend_weights p \<noteq> []" by auto
  have pos: "\<forall>x\<in>set (map snd (backend_weights p)). 0 < x"
    using assms(1) by (auto simp: wrr_consistent_def list_all_iff)
  have g: "gcd_weight p = gcd_list_wrr (map snd (backend_weights p))"
    and m: "max_weight p = max_list (map snd (backend_weights p))"
    using assms(1) ne by (simp_all add: wrr_consistent_def)
  have "0 < gcd_weight p" unfolding g using ne pos by (intro gcd_list_pos) auto
  then show "1 \<le> gcd_weight p" by simp
  have "gcd_weight p dvd w" unfolding g by (rule gcd_list_dvd[OF mem])
  moreover have "0 < w" using pos mem by blast
  ultimately have "gcd_weight p \<le> w" by (simp add: zdvd_imp_le)
  then show "gcd_weight p \<le> weight_of p b" by (simp add: weight_of_def w)
  show "weight_of p b \<le> max_weight p"
    unfolding m using max_list_ge[OF mem] by (simp add: weight_of_def w)
qed

lemma wrr_tick_fields:
  "backend_weights (wrr_tick bs p) = backend_weights p"
  "gcd_weight (wrr_tick bs p) = gcd_weight p" "max_weight (wrr_tick bs p) = max_weight p"
  "current_index (wrr_tick bs p) = (current_index p + 1) mod int (length bs)"
  "current_weight (wrr_tick bs p) =
     (if (current_index p + 1) mod int (length bs) = 0
      then (if current_weight p - gcd_weight p \<le> 0 then max_weight p
            else current_weight p - gcd_weight p)
      else current_weight p)"
  by (simp_all add: wrr_tick_def Let_def)

lemma weight_of_cong: "backend_weights p = backend_weights q \<Longrightarrow> weight_of p = weight_of q"
  by (simp add: weight_of_def fun_eq_iff)

lemma select_loop_unfold:
  "select_loop bs p =
     (if current_index (wrr_tick bs p) = 0 \<and> current_weight (wrr_tick bs p) = 0
      then Some (None, wrr_tick bs p)
      else if current_weight (wrr_tick bs p)
                \<le> weight_of (wrr_tick bs p) (bs ! nat (current_index (wrr_tick bs p)))
        then Some (Some (bs ! nat (current_index (wrr_tick bs p))), wrr_tick bs p)
        else select_loop bs (wrr_tick bs p))"
  by (subst select_loop.simps) (simp add: Let_def)

lemma wrr_ready_tick: "wrr_ready bs (wrr_tick bs p) = wrr_ready bs p"
  by (simp add: wrr_ready_def wrr_tick_fields weight_of_cong[OF wrr_tick_fields(1)])

lemma wrr_ready_funpow: "wrr_ready bs ((wrr_tick bs ^^ t) p) = wrr_ready bs p"
  by (induction t) (simp_all add: wrr_ready_tick)

lemma ensure_weights_registered:
  "\<forall>b\<in>set bs. map_of (backend_weights p) b \<noteq> None \<Longrightarrow> ensure_weights bs p = Inr p"
  by (induction bs) (simp_all del: not_None_eq)

lemma wrr_ready_pos: 
  assumes "wrr_ready bs p"
  shows "1 \<le> max_weight p" "0 < int (length bs)"
proof -
  have "hd bs \<in> set bs" using assms by (simp add: wrr_ready_def)
  then have "0 < weight_of p (hd bs)" "weight_of p (hd bs) \<le> max_weight p"
    using assms by (auto simp: wrr_ready_def list_all_iff)
  then show "1 \<le> max_weight p" by linarith
  show "0 < int (length bs)" using assms by (simp add: wrr_ready_def)
qed

lemma wrr_tick_nonzero:
  assumes "wrr_ready bs p"
  shows "\<not> (current_index (wrr_tick bs p) = 0 \<and> current_weight (wrr_tick bs p) = 0)"
  using wrr_ready_pos(1)[of bs p] assms by (auto simp: wrr_tick_fields split: if_splits)

lemma wrr_select_backend_step:
  assumes "wrr_ready bs p"
  shows "wrr_select_backend bs p =
           (if wrr_pass bs (wrr_tick bs p)
            then Some (Inr (Some (wrr_chosen bs (wrr_tick bs p))), wrr_tick bs p)
            else wrr_select_backend bs (wrr_tick bs p))"
proof -
  have reg: "\<forall>b\<in>set bs. map_of (backend_weights p) b \<noteq> None"
    using assms by (simp add: wrr_ready_def list_all_iff)
  then have reg': "\<forall>b\<in>set bs. map_of (backend_weights (wrr_tick bs p)) b \<noteq> None"
    by (simp add: wrr_tick_fields)
  have ne: "bs \<noteq> []" using assms by (simp add: wrr_ready_def)
  show ?thesis
    using wrr_tick_nonzero[OF assms] ne
    by (auto simp: wrr_select_backend_def ensure_weights_registered[OF reg]
        ensure_weights_registered[OF reg'] select_loop_unfold[of bs p] wrr_pass_def wrr_chosen_def)
qed





lemma wf_wrr_order: "wf (wrr_order bs)"
  by (simp add: wrr_order_def)

lemma wrr_tick_index_range:
  assumes "bs \<noteq> []"
  shows "0 \<le> current_index (wrr_tick bs p)" "current_index (wrr_tick bs p) < int (length bs)"
    "nat (current_index (wrr_tick bs p)) < length bs" "wrr_chosen bs (wrr_tick bs p) \<in> set bs"
proof -
  have n: "0 < int (length bs)" using assms by simp
  show i: "0 \<le> current_index (wrr_tick bs p)" "current_index (wrr_tick bs p) < int (length bs)"
    using n by (simp_all add: wrr_tick_fields)
  then show l: "nat (current_index (wrr_tick bs p)) < length bs" by linarith
  then show "wrr_chosen bs (wrr_tick bs p) \<in> set bs" by (simp add: wrr_chosen_def)
qed

lemma wrr_ready_weight:
  assumes "wrr_ready bs p" "b \<in> set bs"
  shows "gcd_weight p \<le> weight_of p b" "gcd_weight p dvd weight_of p b" "0 < weight_of p b"
    "weight_of p b \<le> max_weight p"
proof -
  show d: "gcd_weight p dvd weight_of p b" and z: "0 < weight_of p b"
    and "weight_of p b \<le> max_weight p"
    using assms by (auto simp: wrr_ready_def list_all_iff)
  show "gcd_weight p \<le> weight_of p b" using d z by (simp add: zdvd_imp_le)
qed

lemma wrr_tick_decreases:
  assumes r: "wrr_ready bs p" and np: "\<not> wrr_pass bs (wrr_tick bs p)"
  shows "(wrr_tick bs p, p) \<in> wrr_order bs"
proof -
  let ?n = "int (length bs)"
  let ?q = "wrr_tick bs p"
  let ?j = "(current_index p + 1) mod ?n"
  have bs: "bs \<noteq> []" and g: "1 \<le> gcd_weight p" using r by (simp_all add: wrr_ready_def)
  have n: "0 < ?n" using bs by simp
  note rng = wrr_tick_index_range[OF bs, of p]
  have "gcd_weight p \<le> weight_of p (wrr_chosen bs ?q)"
    using wrr_ready_weight(1)[OF r rng(4)] .
  then have big: "gcd_weight p < current_weight ?q"
    using np by (simp add: wrr_pass_def wrr_chosen_def weight_of_cong[OF wrr_tick_fields(1)])
  have j: "0 \<le> ?j" "?j < ?n" using n by simp_all
  show ?thesis
  proof (cases "?j = 0")
    case True
    then show ?thesis
      using big g by (auto simp: wrr_order_def wrr_tick_fields split: if_splits)
  next
    case nz: False
    have r': "0 \<le> current_index p mod ?n" "current_index p mod ?n < ?n" using n by simp_all
    have jr: "?j = (current_index p mod ?n + 1) mod ?n" by (simp add: mod_simps)
    have "current_index p mod ?n + 1 \<noteq> ?n" using jr nz by auto
    then have "current_index p mod ?n + 1 < ?n" using r' by linarith
    then have "?j = current_index p mod ?n + 1" using jr r' by (simp add: mod_pos_pos_trivial)
    then have "nat (current_index p mod ?n) < nat ?j" using r' by linarith
    moreover have "nat ?j < length bs" using j by linarith
    ultimately show ?thesis
      using nz j by (auto simp: wrr_order_def wrr_tick_fields mod_pos_pos_trivial)
  qed
qed

lemma wrr_select_backend_total:
  assumes "wrr_ready bs p"
  shows "\<exists>b q. wrr_select_backend bs p = Some (Inr (Some b), q) \<and> b \<in> set bs \<and>
               current_weight q \<le> weight_of q b \<and> wrr_ready bs q \<and>
               backend_weights q = backend_weights p \<and> gcd_weight q = gcd_weight p \<and>
               max_weight q = max_weight p"
  using assms
proof (induction p rule: wf_induct_rule[OF wf_wrr_order[of bs]])
  case (1 p)
  let ?q = "wrr_tick bs p"
  have bs: "bs \<noteq> []" using "1.prems" by (simp add: wrr_ready_def)
  have rq: "wrr_ready bs ?q" using "1.prems" by (simp add: wrr_ready_tick)
  show ?case
  proof (cases "wrr_pass bs ?q")
    case True
    have "wrr_select_backend bs p = Some (Inr (Some (wrr_chosen bs ?q)), ?q)"
      using True by (simp add: wrr_select_backend_step[OF "1.prems"])
    moreover have "current_weight ?q \<le> weight_of ?q (wrr_chosen bs ?q)"
      using True by (simp add: wrr_pass_def wrr_chosen_def)
    ultimately show ?thesis
      using wrr_tick_index_range(4)[OF bs, of p] rq wrr_tick_fields(1,2,3)[of bs p] by blast
  next
    case False
    have "wrr_select_backend bs p = wrr_select_backend bs ?q"
      using False by (simp add: wrr_select_backend_step[OF "1.prems"])
    then show ?thesis
      using "1.IH"[OF wrr_tick_decreases[OF "1.prems" False] rq] wrr_tick_fields(1,2,3)[of bs p]
      by simp
  qed
qed

lemma max_list_mem: "ws \<noteq> [] \<Longrightarrow> max_list ws \<in> set ws"
proof -
  have "foldl max (x::int) xs \<in> set (x # xs)" for x xs
  proof (induction xs arbitrary: x)
    case Nil
    then show ?case by simp
  next
    case (Cons y ys)
    from Cons.IH[of "max x y"] show ?case by (auto simp: max_def split: if_splits)
  qed
  then show "ws \<noteq> [] \<Longrightarrow> max_list ws \<in> set ws" by (cases ws) auto
qed

lemma consistent_ready:
  assumes c: "wrr_consistent p" and bs: "bs \<noteq> []"
      and reg: "\<forall>b\<in>set bs. map_of (backend_weights p) b \<noteq> None"
  shows "wrr_ready bs p"
proof -
  have ne: "backend_weights p \<noteq> []" using reg bs by (cases bs) auto
  have g1: "1 \<le> gcd_weight p" using consistent_registered(1)[OF c] reg bs by (cases bs) auto
  have "max_weight p \<in> set (map snd (backend_weights p))"
    using c ne max_list_mem[of "map snd (backend_weights p)"] by (simp add: wrr_consistent_def)
  moreover have "gcd_weight p = gcd_list_wrr (map snd (backend_weights p))"
    using c ne by (simp add: wrr_consistent_def)
  ultimately have gm: "gcd_weight p dvd max_weight p" using gcd_list_dvd by metis
  have each: "gcd_weight p dvd weight_of p b \<and> 0 < weight_of p b \<and> weight_of p b \<le> max_weight p"
    if "b \<in> set bs" for b
  proof -
    from reg that obtain w where w: "map_of (backend_weights p) b = Some w" by auto
    then have mem: "w \<in> set (map snd (backend_weights p))"
      by (metis map_of_SomeD set_zip_rightD zip_map_fst_snd)
    have "gcd_weight p dvd w"
      using c ne gcd_list_dvd[OF mem] by (simp add: wrr_consistent_def)
    moreover have "0 < w" using c mem by (auto simp: wrr_consistent_def list_all_iff)
    moreover have "w \<le> max_weight p"
      using c ne max_list_ge[OF mem] by (simp add: wrr_consistent_def)
    ultimately show ?thesis by (simp add: weight_of_def w)
  qed
  show ?thesis
    using bs g1 gm reg each by (simp add: wrr_ready_def list_all_iff)
qed

lemma wrr_consistent_cong:
  "backend_weights q = backend_weights p \<Longrightarrow> gcd_weight q = gcd_weight p \<Longrightarrow>
   max_weight q = max_weight p \<Longrightarrow> wrr_consistent q = wrr_consistent p"
  by (simp add: wrr_consistent_def)

lemma wrr_select_backend_ensure:
  assumes "bs \<noteq> []" "ensure_weights bs p = Inr p1"
    "\<forall>b\<in>set bs. map_of (backend_weights p1) b \<noteq> None"
  shows "wrr_select_backend bs p = wrr_select_backend bs p1"
  using assms by (simp add: wrr_select_backend_def ensure_weights_registered)

text \<open>
  Claim C8: for every non-empty backend list and every plugin state whose registered
  weights are positive (with the derived \<open>max_weight\<close> and \<open>gcd_weight\<close> up to date, as
  \<open>set_backend_weight\<close> leaves them), \<open>select_backend\<close> returns: the loop reaches a
  backend of the list whose weight is at least \<open>current_weight\<close> and returns it.
  Backends without a weight are registered with weight 1 first.
\<close>

theorem wrr_select_backend_terminates:
  assumes "backends \<noteq> []" "wrr_consistent p"
  shows "\<exists>b p'. wrr_select_backend backends p = Some (Inr (Some b), p') \<and> b \<in> set backends \<and>
                current_weight p' \<le> weight_of p' b \<and> 0 < weight_of p' b \<and> wrr_consistent p'"
proof -
  from ensure_weights_ok[OF assms(2), of backends] obtain p1 where
    p1: "ensure_weights backends p = Inr p1" "wrr_consistent p1"
        "\<forall>b\<in>set backends. map_of (backend_weights p1) b \<noteq> None"
    by blast
  have r: "wrr_ready backends p1" using consistent_ready[OF p1(2) assms(1) p1(3)] .
  from wrr_select_backend_total[OF r] obtain b q where
    q: "wrr_select_backend backends p1 = Some (Inr (Some b), q)" "b \<in> set backends"
       "current_weight q \<le> weight_of q b" "wrr_ready backends q"
       "backend_weights q = backend_weights p1" "gcd_weight q = gcd_weight p1"
       "max_weight q = max_weight p1"
    by blast
  have "wrr_consistent q" using wrr_consistent_cong[OF q(5,6,7)] p1(2) by simp
  moreover have "0 < weight_of q b" using wrr_ready_weight(3)[OF q(4) q(2)] .
  ultimately show ?thesis
    using q(1,2,3) wrr_select_backend_ensure[OF assms(1) p1(1,3)] by simp
qed


lemma example_wrr_eq:
  "example_wrr = \<lparr>current_index = 0, current_weight = 0, max_weight = 2, gcd_weight = 1,
      backend_weights = [(''a'', 1), (''b'', 2)]\<rparr>"
  by (simp add: example_wrr_def set_backend_weight_def WeightedRoundRobinPlugin_init_def
      recalculate_weights_def)

theorem wrr_select_backend_terminates_witness:
  "wrr_select_backend [''a'', ''b'', ''c''] example_wrr =
     Some (Inr (Some ''b''),
           \<lparr>current_index = 1, current_weight = 0, max_weight = 2, gcd_weight = 1,
            backend_weights = [(''a'', 1), (''b'', 2), (''c'', 1)]\<rparr>)"
proof -
  have h: "[''a'', ''b'', ''c''] \<noteq> []" "wrr_consistent example_wrr"
    by (simp_all add: example_wrr_eq wrr_consistent_def)
  from wrr_select_backend_terminates[OF h] show ?thesis
    by (simp add: example_wrr_eq wrr_select_backend_def set_backend_weight_def
        recalculate_weights_def select_loop_unfold wrr_tick_def weight_of_def Let_def)
qed





































section \<open>Properties of the connection pool\<close>

declare top_up.simps [simp del]

lemma dict_set_mem: "(k, v) \<in> set (dict_set d k v)"
  by (induction d) auto

lemma create_connection_None:
  assumes "create_connection now p = (None, p1)"
  shows "connections p1 = connections p" "created_connections p1 = created_connections p"
    "pool_config p1 = pool_config p" "connection_factory p1 = connection_factory p"
    "available p1 = available p" "running p1 = running p"
  using assms
  by (auto simp: create_connection_def register_connection_def Let_def
      split: if_splits option.splits)

lemma create_connection_Some_more:
  assumes "create_connection now p = (Some c, p1)"
  shows "connection_factory p1 = connection_factory p" "available p1 = available p"
    "running p1 = running p"
  using assms
  by (auto simp: create_connection_def register_connection_def Let_def
      split: if_splits option.splits)

lemma create_connection_reliable:
  assumes "factory_reliable (connection_factory p)"
      and "int (length (connections p)) < max_connections (pool_config p)"
  shows "\<exists>c p1. create_connection now p = (Some c, p1)"
proof (cases "connection_factory p")
  case None
  then show ?thesis
    using assms(2) by (simp add: create_connection_def register_connection_def Let_def)
next
  case (Some f)
  then have "f (factory_calls p) \<noteq> None" using assms(1) by (simp add: factory_reliable_def)
  then obtain h where "f (factory_calls p) = Some h" by blast
  then show ?thesis
    using assms(2) Some by (simp add: create_connection_def register_connection_def Let_def)
qed

lemma create_connection_inv:
  assumes inv: "pool_inv cfg fac p" and cc: "create_connection now p = (r, p1)"
  shows "pool_inv cfg fac p1" and "length (connections p) \<le> length (connections p1)"
    and "r \<noteq> None \<Longrightarrow> length (connections p1) = Suc (length (connections p))"
proof -
  have fresh: "created_connections p \<notin> fst ` set (connections p)"
    using inv by (auto simp: pool_inv_def list_all_iff)
  show "pool_inv cfg fac p1"
  proof (cases r)
    case None
    then show ?thesis using inv create_connection_None[of now p p1] cc by (simp add: pool_inv_def)
  next
    case (Some c)
    note f = create_connection_Some[of now p c p1] create_connection_Some_more[of now p c p1]
    have cc': "create_connection now p = (Some c, p1)" using cc Some by simp
    have "\<forall>e\<in>set (dict_set (connections p) (created_connections p) c).
            fst e < created_connections p + 1"
      using set_dict_set[of "connections p" "created_connections p" c] inv
      by (fastforce simp: pool_inv_def list_all_iff)
    then show ?thesis
      using inv f(5)[OF cc'] fresh
      by (simp add: pool_inv_def f(1,2,3)[OF cc'] f(6)[OF cc'] list_all_iff length_dict_set)
  qed
  show "length (connections p) \<le> length (connections p1)"
    using cc create_connection_None(1)[of now p p1] create_connection_Some(1)[of now p _ p1]
    by (cases r) (auto simp: length_dict_set)
  show "r \<noteq> None \<Longrightarrow> length (connections p1) = Suc (length (connections p))"
    using cc fresh create_connection_Some(1)[of now p _ p1]
    by (cases r) (auto simp: length_dict_set)
qed

lemma close_connection_inv:
  assumes "pool_inv cfg fac p"
  shows "pool_inv cfg fac (close_connection c p)"
    and "length (connections (close_connection c p)) \<le> length (connections p)"
proof -
  have le: "int (length (dict_del (connections p) (connection_id c))) \<le> int (length (connections p))"
    by (simp add: dict_del_def)
  have sub: "set (dict_del (connections p) (connection_id c)) \<subseteq> set (connections p)"
    by (auto simp: dict_del_def)
  show "pool_inv cfg fac (close_connection c p)"
    using assms le sub
    by (auto simp: close_connection_def pool_inv_def list_all_iff Let_def)
  show "length (connections (close_connection c p)) \<le> length (connections p)"
    using le by (auto simp: close_connection_def Let_def)
qed

lemma fold_close_connection_inv:
  "pool_inv cfg fac p \<Longrightarrow> pool_inv cfg fac (fold close_connection cs p)"
  by (induction cs arbitrary: p) (simp_all add: close_connection_inv)

lemma top_up_inv:
  "pool_inv cfg fac p \<Longrightarrow>
     pool_inv cfg fac (top_up now p) \<and>
     (factory_reliable fac \<and> min_connections cfg \<le> max_connections cfg
        \<longrightarrow> min_connections cfg \<le> int (length (connections (top_up now p))))"
proof (induction now p rule: top_up.induct)
  case (1 now p)
  have cfg: "pool_config p = cfg" "connection_factory p = fac"
    using "1.prems" by (simp_all add: pool_inv_def)
  show ?case
  proof (cases "int (length (connections p)) < min_connections (pool_config p)")
    case False
    then show ?thesis using "1.prems" cfg by (simp add: top_up.simps[of now p])
  next
    case True
    obtain r p1 where cc: "create_connection now p = (r, p1)" by (cases "create_connection now p")
    note ci = create_connection_inv[OF "1.prems" cc]
    show ?thesis
    proof (cases r)
      case None
      have "\<not> (factory_reliable fac \<and> min_connections cfg \<le> max_connections cfg)"
      proof
        assume a: "factory_reliable fac \<and> min_connections cfg \<le> max_connections cfg"
        then have "int (length (connections p)) < max_connections (pool_config p)"
          using True cfg by simp
        from create_connection_reliable[OF _ this, of now] a cfg cc None show False by simp
      qed
      then show ?thesis using True cc None ci(1) by (auto simp: top_up.simps[of now p])
    next
      case (Some c)
      let ?p2 = "p1\<lparr>available := available p1 @ [connection_id c]\<rparr>"
      have i2: "pool_inv cfg fac ?p2" using ci(1) by (simp add: pool_inv_def)
      have "top_up now p = top_up now ?p2"
        using True cc Some by (simp add: top_up.simps[of now p])
      then show ?thesis
        using "1.IH"[OF True cc[symmetric, unfolded Some] refl i2] by simp
    qed
  qed
qed

lemma perform_maintenance_inv:
  assumes "pool_inv cfg fac p"
  shows "pool_inv cfg fac (perform_maintenance now p)"
    and "factory_reliable fac \<Longrightarrow> min_connections cfg \<le> max_connections cfg
         \<Longrightarrow> min_connections cfg \<le> int (length (connections (perform_maintenance now p)))"
  using top_up_inv[OF fold_close_connection_inv[OF assms, of "connections_to_close now p"], of now]
  by (simp_all add: perform_maintenance_def)

lemma acquire_new_inv:
  assumes "pool_inv cfg fac p"
  shows "pool_inv cfg fac (snd (acquire_new now p))"
    and "length (connections p) \<le> length (connections (snd (acquire_new now p)))"
proof -
  obtain r p1 where cc: "create_connection now p = (r, p1)" by (cases "create_connection now p")
  note ci = create_connection_inv[OF assms cc]
  show "pool_inv cfg fac (snd (acquire_new now p))"
  proof (cases r)
    case None
    then show ?thesis using cc ci(1) by (simp add: acquire_new_def pool_inv_def)
  next
    case (Some c)
    have cc': "create_connection now p = (Some c, p1)" using cc Some by simp
    note f = create_connection_Some[OF cc']
    have "(created_connections p, c) \<in> set (connections p1)"
      by (simp add: f(1) dict_set_mem)
    then have mem: "connection_id c \<in> fst ` set (connections p1)"
      unfolding f(4) by force
    have "\<forall>e\<in>set (dict_set (connections p1) (connection_id c) (mark_used now c)).
            fst e < created_connections p1"
      using set_dict_set[of "connections p1" "connection_id c" "mark_used now c"] ci(1)
      by (fastforce simp: pool_inv_def list_all_iff f)
    then show ?thesis
      using cc' ci(1) mem
      by (simp add: acquire_new_def pool_inv_def list_all_iff length_dict_set)
  qed
  show "length (connections p) \<le> length (connections (snd (acquire_new now p)))"
    using cc ci(2) by (cases r) (auto simp: acquire_new_def length_dict_set)
qed


lemma acquire_inv:
  assumes "pool_inv cfg fac p"
  shows "pool_inv cfg fac (snd (acquire now p))"
    and "length (connections p) \<le> length (connections (snd (acquire now p)))"
proof -
  show "pool_inv cfg fac (snd (acquire now p))"
  proof (cases "available p")
    case Nil
    then show ?thesis using acquire_new_inv(1)[OF assms] by (simp add: acquire_def)
  next
    case (Cons cid rest)
    let ?p1 = "p\<lparr>available := rest\<rparr>"
    have i1: "pool_inv cfg fac ?p1" using assms by (simp add: pool_inv_def)
    show ?thesis
    proof (cases "map_of (connections p) cid")
      case None
      then show ?thesis using Cons acquire_new_inv(1)[OF i1] by (simp add: acquire_def)
    next
      case (Some conn)
      then have mem: "cid \<in> fst ` set (connections p)" by (metis map_of_eq_None_iff option.distinct(1))
      have "\<forall>e\<in>set (dict_set (connections p) cid (mark_used now conn)). fst e < created_connections p"
        using set_dict_set[of "connections p" cid "mark_used now conn"] assms mem
        by (fastforce simp: pool_inv_def list_all_iff)
      then show ?thesis
        using Cons Some assms mem
        by (simp add: acquire_def pool_inv_def list_all_iff length_dict_set)
    qed
  qed
  show "length (connections p) \<le> length (connections (snd (acquire now p)))"
  proof (cases "available p")
    case Nil
    then show ?thesis using acquire_new_inv(2)[OF assms] by (simp add: acquire_def)
  next
    case (Cons cid rest)
    let ?p1 = "p\<lparr>available := rest\<rparr>"
    have i1: "pool_inv cfg fac ?p1" using assms by (simp add: pool_inv_def)
    show ?thesis
    proof (cases "map_of (connections p) cid")
      case None
      then show ?thesis using Cons acquire_new_inv(2)[OF i1, of now] by (simp add: acquire_def)
    next
      case (Some conn)
      then show ?thesis using Cons by (simp add: acquire_def length_dict_set)
    qed
  qed
qed

lemma release_inv:
  assumes "pool_inv cfg fac p"
  shows "pool_inv cfg fac (release now c p)"
    and "length (connections (release now c p)) = length (connections p)"
proof -
  show "pool_inv cfg fac (release now c p)"
  proof (cases "find (\<lambda>e. connection (snd e) = c) (connections p)")
    case None
    then show ?thesis using assms by (simp add: release_def)
  next
    case (Some e)
    obtain cid conn where e: "e = (cid, conn)" by (cases e)
    have "(cid, conn) \<in> set (connections p)"
      using Some e by (auto simp: find_Some_iff)
    then have mem: "cid \<in> fst ` set (connections p)" by force
    have "\<forall>e\<in>set (dict_set (connections p) cid (mark_idle now conn)). fst e < created_connections p"
      using set_dict_set[of "connections p" cid "mark_idle now conn"] assms mem
      by (fastforce simp: pool_inv_def list_all_iff)
    then show ?thesis
      using Some e assms mem by (simp add: release_def pool_inv_def list_all_iff length_dict_set)
  qed
  show "length (connections (release now c p)) = length (connections p)"
  proof (cases "find (\<lambda>e. connection (snd e) = c) (connections p)")
    case None
    then show ?thesis by (simp add: release_def)
  next
    case (Some e)
    obtain cid conn where e: "e = (cid, conn)" by (cases e)
    have "(cid, conn) \<in> set (connections p)"
      using Some e by (auto simp: find_Some_iff)
    then have mem: "cid \<in> fst ` set (connections p)" by force
    then show ?thesis using Some e by (simp add: release_def length_dict_set)
  qed
qed

lemma create_times_inv:
  "pool_inv cfg fac p \<Longrightarrow>
     pool_inv cfg fac (create_times n now p) \<and>
     (factory_reliable fac \<longrightarrow>
        min (int (length (connections p)) + int n) (max_connections cfg)
          \<le> int (length (connections (create_times n now p))))"
proof (induction n arbitrary: p)
  case 0
  then show ?case by (simp add: pool_inv_def)
next
  case (Suc n)
  obtain r p1 where cc: "create_connection now p = (r, p1)" by (cases "create_connection now p")
  note ci = create_connection_inv[OF Suc.prems cc]
  have cfg: "pool_config p = cfg" "connection_factory p = fac"
    using Suc.prems by (simp_all add: pool_inv_def)
  have step: "min (int (length (connections p)) + int (Suc n)) (max_connections cfg)
          \<le> min (int (length (connections p1)) + int n) (max_connections cfg)"
    if rel: "factory_reliable fac"
  proof (cases "int (length (connections p)) < max_connections cfg")
    case True
    from create_connection_reliable[of p now] rel True cfg cc have "r \<noteq> None" by auto
    then show ?thesis using ci(3) by simp
  next
    case False
    then show ?thesis using ci(2) by simp
  qed
  from Suc.IH[OF ci(1)] show ?case using step cc by auto
qed

lemma start_init_inv:
  assumes "0 \<le> max_connections cfg"
  shows "pool_inv cfg fac (start t0 (ConnectionPool_init bid cfg fac))"
    and "factory_reliable fac \<Longrightarrow> min_connections cfg \<le> max_connections cfg \<Longrightarrow>
         min_connections cfg \<le> int (length (connections (start t0 (ConnectionPool_init bid cfg fac))))"
proof -
  let ?p = "(ConnectionPool_init bid cfg fac)\<lparr>running := True\<rparr>"
  have i: "pool_inv cfg fac ?p" using assms by (simp add: pool_inv_def ConnectionPool_init_def)
  have s: "start t0 (ConnectionPool_init bid cfg fac) = create_times (nat (min_connections cfg)) t0 ?p"
    by (simp add: start_def ConnectionPool_init_def)
  note ct = create_times_inv[OF i, of "nat (min_connections cfg)" t0]
  show "pool_inv cfg fac (start t0 (ConnectionPool_init bid cfg fac))" using ct s by simp
  show "min_connections cfg \<le> int (length (connections (start t0 (ConnectionPool_init bid cfg fac))))"
    if "factory_reliable fac" "min_connections cfg \<le> max_connections cfg"
  proof -
    have "min (int (length (connections ?p)) + int (nat (min_connections cfg))) (max_connections cfg)
          \<le> int (length (connections (create_times (nat (min_connections cfg)) t0 ?p)))"
      using ct that(1) by blast
    moreover have "min_connections cfg
        \<le> min (int (length (connections ?p)) + int (nat (min_connections cfg))) (max_connections cfg)"
      using that(2) by (simp add: ConnectionPool_init_def)
    ultimately show ?thesis unfolding s by linarith
  qed
qed

lemma apply_pool_op_inv:
  assumes i: "pool_inv cfg fac p" and rel: "factory_reliable fac"
      and mm: "min_connections cfg \<le> max_connections cfg"
      and lo: "min_connections cfg \<le> int (length (connections p))"
  shows "pool_inv cfg fac (apply_pool_op op p)"
    and "min_connections cfg \<le> int (length (connections (apply_pool_op op p)))"
proof -
  show "pool_inv cfg fac (apply_pool_op op p)"
    using i by (cases op) (simp_all add: acquire_inv release_inv perform_maintenance_inv)
  show "min_connections cfg \<le> int (length (connections (apply_pool_op op p)))"
  proof (cases op)
    case (Acquire now)
    then show ?thesis using acquire_inv(2)[OF i, of now] lo by simp
  next
    case (Release now c)
    then show ?thesis using release_inv(2)[OF i, of now c] lo by simp
  next
    case (Maintenance now)
    then show ?thesis using perform_maintenance_inv(2)[OF i rel mm, of now] by simp
  qed
qed

lemma run_pool_ops_inv:
  assumes rel: "factory_reliable fac" and mm: "min_connections cfg \<le> max_connections cfg"
  shows "pool_inv cfg fac p \<Longrightarrow> min_connections cfg \<le> int (length (connections p)) \<Longrightarrow>
         pool_inv cfg fac (run_pool_ops ops p) \<and>
         min_connections cfg \<le> int (length (connections (run_pool_ops ops p)))"
proof (induction ops arbitrary: p)
  case Nil
  then show ?case by (simp add: run_pool_ops_def)
next
  case (Cons op ops)
  note a = apply_pool_op_inv[OF Cons.prems(1) rel mm Cons.prems(2), of op]
  from Cons.IH[OF a] show ?case by (simp add: run_pool_ops_def)
qed

lemma run_pool_ops_upper:
  "pool_inv cfg fac p \<Longrightarrow> pool_inv cfg fac (run_pool_ops ops p)"
proof (induction ops arbitrary: p)
  case Nil
  then show ?case by (simp add: run_pool_ops_def)
next
  case (Cons op ops)
  have "pool_inv cfg fac (apply_pool_op op p)"
    using Cons.prems by (cases op) (simp_all add: acquire_inv release_inv perform_maintenance_inv)
  from Cons.IH[OF this] show ?case by (simp add: run_pool_ops_def)
qed

lemma unreachable_pool_eq:
  "unreachable_pool =
     (ConnectionPool_init ''b1''
        (example_pool_config\<lparr>min_connections := 2, max_connections := 3\<rparr>)
        (Some failing_factory))\<lparr>running := True, factory_calls := 2\<rparr>"
  by (simp add: unreachable_pool_def start_def ConnectionPool_init_def example_pool_config_def
      create_connection_def failing_factory_def numeral_2_eq_2)

text \<open>
  Claim C9 as stated fails when connection creation fails: \<open>_create_connection\<close> catches
  the factory's exception and returns \<open>None\<close>, so a pool started with
  \<open>min_connections = 2\<close> against a factory that raises holds no connection, and a
  maintenance run does not change that.
\<close>

theorem pool_below_min_counterexample:
  "running unreachable_pool \<and>
   min_connections (pool_config unreachable_pool) = 2 \<and>
   length (connections unreachable_pool) = 0 \<and>
   length (connections (run_pool_ops [Maintenance 60] unreachable_pool)) = 0"
  by (simp add: unreachable_pool_eq run_pool_ops_def perform_maintenance_def
      connections_to_close_def top_up.simps create_connection_def failing_factory_def
      ConnectionPool_init_def example_pool_config_def)

text \<open>
  Claim C9, amended: for a pool started from its constructor state with
  \<open>0 \<le> max_connections\<close>, the number of connections held after any sequence of
  acquire, release and maintenance operations is at most \<open>max_connections\<close>; it is at
  least \<open>min_connections\<close> provided \<open>min_connections \<le> max_connections\<close> and no
  connection creation fails.
\<close>

theorem pool_size_bounds:
  assumes "0 \<le> max_connections cfg"
  shows "int (length (connections (run_pool_ops ops (start t0 (ConnectionPool_init bid cfg factory)))))
           \<le> max_connections cfg
       \<and> (factory_reliable factory \<and> min_connections cfg \<le> max_connections cfg \<longrightarrow>
            min_connections cfg
              \<le> int (length (connections
                    (run_pool_ops ops (start t0 (ConnectionPool_init bid cfg factory))))))"
proof -
  note s = start_init_inv[OF assms, of factory t0 bid]
  have up: "int (length (connections (run_pool_ops ops (start t0 (ConnectionPool_init bid cfg factory)))))
           \<le> max_connections cfg"
    using run_pool_ops_upper[OF s(1), of ops] by (simp add: pool_inv_def)
  have lo: "min_connections cfg
              \<le> int (length (connections
                    (run_pool_ops ops (start t0 (ConnectionPool_init bid cfg factory)))))"
    if "factory_reliable factory" "min_connections cfg \<le> max_connections cfg"
    using run_pool_ops_inv[OF that s(1) s(2)[OF that], of ops] by simp
  show ?thesis using up lo by blast
qed

lemma small_pool_eq:
  "small_pool =
     (ConnectionPool_init ''b1''
        (example_pool_config\<lparr>min_connections := 2, max_connections := 3\<rparr>) None)
      \<lparr>running := True,
        connections := [(0, PooledConnection_init 0 0 simulated_connection),
                        (1, PooledConnection_init 0 1 simulated_connection)],
        created_connections := 2, current_idle := 2\<rparr>"
  by (simp add: small_pool_def start_def ConnectionPool_init_def example_pool_config_def
      create_connection_def register_connection_def numeral_2_eq_2 Let_def)


theorem pool_size_bounds_witness:
  "length (connections (run_pool_ops [Acquire 1, Acquire 2] small_pool)) = 3 \<and>
   length (connections (run_pool_ops [Acquire 1, Acquire 2, Maintenance 5000] small_pool)) = 2 \<and>
   min_connections (pool_config small_pool) = 2 \<and> max_connections (pool_config small_pool) = 3"
proof -
  let ?cfg = "example_pool_config\<lparr>min_connections := 2, max_connections := 3\<rparr>"
  have h: "0 \<le> max_connections ?cfg" by (simp add: example_pool_config_def)
  have r: "factory_reliable None \<and> min_connections ?cfg \<le> max_connections ?cfg"
    by (simp add: factory_reliable_def example_pool_config_def)
  have a: "length (connections (run_pool_ops [Acquire 1, Acquire 2] small_pool)) = 3"
    by (simp add: small_pool_eq run_pool_ops_def acquire_def acquire_new_def create_connection_def
        register_connection_def ConnectionPool_init_def example_pool_config_def Let_def
        PooledConnection_init_def mark_used_def)
  have "2 \<le> int (length (connections (run_pool_ops [Acquire 1, Acquire 2, Maintenance 5000] small_pool)))"
    using pool_size_bounds[OF h, of "[Acquire 1, Acquire 2, Maintenance 5000]" 0 "''b1''" None] r
    by (simp add: small_pool_def example_pool_config_def)
  moreover have "length (connections (run_pool_ops [Acquire 1, Acquire 2, Maintenance 5000] small_pool)) \<le> 2"
    by (simp add: small_pool_eq run_pool_ops_def acquire_def acquire_new_def create_connection_def
        register_connection_def ConnectionPool_init_def example_pool_config_def Let_def
        PooledConnection_init_def mark_used_def perform_maintenance_def connections_to_close_def
        is_expired_def is_idle_timeout_def close_connection_def dict_del_def simulated_connection_def
        top_up.simps)
  ultimately have "length (connections (run_pool_ops [Acquire 1, Acquire 2, Maintenance 5000] small_pool)) = 2"
    by linarith
  then show ?thesis using a by (simp add: small_pool_eq ConnectionPool_init_def example_pool_config_def)
qed







lemma acquire_ignores_running:
  "fst (acquire now (p\<lparr>running := b\<rparr>)) = fst (acquire now p)"
  by (simp add: acquire_def acquire_new_def create_connection_def register_connection_def Let_def
      split: list.splits option.splits)







text \<open>With connections in the pool and a \<open>close()\<close> that does not raise, the loop of
  \<open>stop()\<close> deletes the first connection and then fails; the other connections stay in
  the dictionary.\<close>

lemma stop_small_pool:
  "fst (stop small_pool) = Some RuntimeError \<and>
   map fst (connections (snd (stop small_pool))) = [1]"
  by (simp add: small_pool_eq stop_def close_connection_def dict_del_def ConnectionPool_init_def
      PooledConnection_init_def simulated_connection_def Let_def)


end
